theory Spec2Isabelle
  imports Main "HOL-Library.AList" "HOL-Library.Word"
begin

section \<open>The expiring cache\<close>

text \<open>
  \<^verbatim>\<open>main.go\<close> keeps one process-wide \<^verbatim>\<open>cache ttl_map.Heap\<close> and uses two of its
  operations, \<^verbatim>\<open>cache.Get(key)\<close> and \<^verbatim>\<open>cache.Set(key, value, ttl)\<close>. The package
  \<^verbatim>\<open>github.com/leprosus/golang-ttl-map\<close> is a dependency whose code is not part of
  the program text, so the two operations are modelled below. Time is the wall clock in
  whole seconds (\<^verbatim>\<open>time.Now().Unix()\<close>), passed in explicitly as \<open>now\<close>.
\<close>

type_synonym Heap = "string \<rightharpoonup> (string \<times> int)"

text \<open>
  Modelled from the spec: the body of \<^verbatim>\<open>Heap.Get\<close> is missing. Section 4.1: a read
  "returns the current unexpired value [...] or an empty sequence if the key is absent
  or expired. Expiry check is by wall-clock comparison against the stored deadline";
  section 8: "after simulated time \<ge> ttl has elapsed, Read(D) returns empty"; "reads
  never extend" the deadline. The value is a Go string, so the empty result is \<open>''''\<close>.
\<close>

definition cache_Get :: "Heap \<Rightarrow> int \<Rightarrow> string \<Rightarrow> string" where
  "cache_Get cache now key =
     (case cache key of
        None \<Rightarrow> ''''
      | Some (v, deadline) \<Rightarrow> if deadline \<le> now then '''' else v)"

text \<open>
  Modelled from the spec: the body of \<^verbatim>\<open>Heap.Set\<close> is missing. Section 4.1: the
  new value is written back "with expiry set to now+ttl".
\<close>

definition cache_Set :: "Heap \<Rightarrow> int \<Rightarrow> string \<Rightarrow> string \<Rightarrow> int \<Rightarrow> Heap" where
  "cache_Set cache now key v ttl = cache(key \<mapsto> (v, now + ttl))"

section \<open>The DNS handler\<close>

text \<open>
  \<^verbatim>\<open>w.RemoteAddr()\<close> is a \<^verbatim>\<open>net.Addr\<close>; the handler type-asserts it against
  \<^verbatim>\<open>*net.UDPAddr\<close> and \<^verbatim>\<open>*net.TCPAddr\<close>. The string carried by the first two
  constructors is what \<^verbatim>\<open>addr.IP.String()\<close> returns; every other implementation of
  the interface is \<open>OtherAddr\<close>.
\<close>

datatype Addr = UDPAddr string | TCPAddr string | OtherAddr

text \<open>
  \<^verbatim>\<open>ServeDNS\<close>, lines 30 to 51. A Go panic is the \<open>Inl\<close> branch with its message:
  the explicit \<^verbatim>\<open>panic("IP not found?")\<close>, the index expression
  \<^verbatim>\<open>req.Question[0]\<close> on an empty question section, and the slice expression
  \<^verbatim>\<open>domain[:len(domain)-1]\<close> on an empty name. \<open>Question\<close> is the list of the
  \<^verbatim>\<open>Name\<close> fields of \<^verbatim>\<open>req.Question\<close>. The \<^verbatim>\<open>Verbose\<close> printing writes to
  standard output only and is left out.
\<close>

definition ServeDNS :: "Heap \<Rightarrow> int \<Rightarrow> Addr \<Rightarrow> string list \<Rightarrow> string + Heap" where
  "ServeDNS cache now remote Question =
     (let ip = '''';
          ip = (case remote of UDPAddr s \<Rightarrow> s | _ \<Rightarrow> ip);
          ip = (case remote of TCPAddr s \<Rightarrow> s | _ \<Rightarrow> ip)
      in if ip = '''' then Inl ''IP not found?''
         else (case Question of
                 [] \<Rightarrow> Inl ''runtime error: index out of range''
               | domain # _ \<Rightarrow>
                   if length domain = 0 then Inl ''runtime error: slice bounds out of range''
                   else (let domain = take (length domain - 1) domain;
                             ips = cache_Get cache now domain;
                             ips = ips @ '','' @ ip
                         in Inr (cache_Set cache now domain ips 300))))"

section \<open>The report handler\<close>

text \<open>
  \<^verbatim>\<open>strings.Split(s, sep)\<close> for a separator of one byte, the only way the program
  calls it (\<^verbatim>\<open>strings.Split(vals, ",")\<close>): the pieces of \<open>s\<close> between the separators,
  so one piece more than there are separators, and \<open>['''']\<close> for the empty string.
\<close>

fun strings_Split :: "string \<Rightarrow> char \<Rightarrow> string list" where
  "strings_Split [] sep = [[]]"
| "strings_Split (c # cs) sep =
     (if c = sep then [] # strings_Split cs sep
      else (case strings_Split cs sep of
              [] \<Rightarrow> [[c]]
            | w # ws \<Rightarrow> (c # w) # ws))"

text \<open>
  \<^verbatim>\<open>uniqips\<close> is a \<^verbatim>\<open>map[string]int\<close> that the second loop ranges over, so its keys
  are kept as a list (in order of first insertion); the counter is a Go \<^verbatim>\<open>int\<close>, taken
  at 64 bits. Lines 94 and 95: a missing key reads as 0.
\<close>

type_synonym uniqips = "(string \<times> 64 word) list"

definition count_ip :: "uniqips \<Rightarrow> string \<Rightarrow> uniqips" where
  "count_ip uniqips ip =
     (let n = (case map_of uniqips ip of None \<Rightarrow> 0 | Some n \<Rightarrow> n)
      in AList.update ip (n + 1) uniqips)"

text \<open>The inner loop, lines 93 to 96, and the outer loop, lines 91 to 97.\<close>

primrec count_ips :: "uniqips \<Rightarrow> string list \<Rightarrow> uniqips" where
  "count_ips uniqips [] = uniqips"
| "count_ips uniqips (ip # ips) = count_ips (count_ip uniqips ip) ips"

primrec collect_domains :: "Heap \<Rightarrow> int \<Rightarrow> uniqips \<Rightarrow> string list \<Rightarrow> uniqips" where
  "collect_domains cache now uniqips [] = uniqips"
| "collect_domains cache now uniqips (domain # domains) =
     (let vals = cache_Get cache now domain
      in collect_domains cache now
           (count_ips uniqips (strings_Split vals (CHR '',''))) domains)"

text \<open>
  The two GeoIP databases are read-only collaborators: \<^verbatim>\<open>net.ParseIP\<close> gives an
  address or \<^verbatim>\<open>nil\<close>, \<^verbatim>\<open>dbCountry.Country(ip)\<close> gives the ISO code of the country or
  an error, \<^verbatim>\<open>dbASN.ASN(ip)\<close> gives the pair of \<^verbatim>\<open>AutonomousSystemNumber\<close> (a
  \<^verbatim>\<open>uint\<close>, never computed with) and \<^verbatim>\<open>AutonomousSystemOrganization\<close>, or an error.
  They are parameters of the model.
\<close>

record 'ip geoip =
  ParseIP :: "string \<Rightarrow> 'ip option"
  dbCountry :: "'ip option \<Rightarrow> string + string"
  dbASN :: "'ip option \<Rightarrow> string + (nat \<times> string)"

record Response =
  ISP :: string
  Country :: string
  IP :: string

text \<open>
  What the handler sends: the body of a successful \<^verbatim>\<open>w.Write\<close>, an
  \<^verbatim>\<open>http.Error(w, msg, code)\<close>, or the JSON encoding of \<^verbatim>\<open>out\<close>, a
  \<^verbatim>\<open>map[uint]Response\<close>.
\<close>

datatype reply =
  Written string
| HttpError string nat
| Json "nat \<rightharpoonup> Response"

text \<open>
  The second loop, lines 101 to 129, over the keys of \<^verbatim>\<open>uniqips\<close> in the order the
  \<^verbatim>\<open>range\<close> statement visits them. An empty key leaves the loop (\<^verbatim>\<open>break\<close>); a failed
  database read answers 400 and returns; an identifier already in \<^verbatim>\<open>out\<close> is left as
  it is.
\<close>

fun humanize :: "'ip geoip \<Rightarrow> string list \<Rightarrow> (nat \<rightharpoonup> Response) \<Rightarrow> reply" where
  "humanize g [] out = Json out"
| "humanize g (ipstr # rest) out =
     (if length ipstr = 0 then Json out
      else (let ip = ParseIP g ipstr in
            case dbCountry g ip of
              Inl e \<Rightarrow> HttpError ''failed parsing IPs'' 400
            | Inr country \<Rightarrow>
                (case dbASN g ip of
                   Inl e \<Rightarrow> HttpError ''failed parsing IPs'' 400
                 | Inr isp \<Rightarrow>
                     humanize g rest
                       (if out (fst isp) = None
                        then out(fst isp \<mapsto> \<lparr>ISP = snd isp, Country = country, IP = ipstr\<rparr>)
                        else out))))"

text \<open>
  Go leaves the order of a \<^verbatim>\<open>range\<close> over a map unspecified: each run of the loop
  visits every key once, in some order. The order is the parameter \<open>iter\<close> of the
  handler, and \<open>range_order\<close> says that it is one the language allows for the map.
\<close>

definition range_order :: "(uniqips \<Rightarrow> string list) \<Rightarrow> uniqips \<Rightarrow> bool" where
  "range_order iter m \<longleftrightarrow> distinct (iter m) \<and> set (iter m) = set (map fst m)"

text \<open>
  The request as the handler sees it: the method, and the outcome of decoding the body
  into \<^verbatim>\<open>Domains\<close> (an error, or the field \<^verbatim>\<open>Domain\<close>).
\<close>

record Request =
  Method :: string
  Decoded :: "string + string list"

text \<open>
  \<^verbatim>\<open>lookup\<close>, lines 67 to 141. The handler only reads the cache. The headers it sets
  are the same on every path and are left out, as is the failure of
  \<^verbatim>\<open>json.NewEncoder(buf).Encode(out)\<close>, which a map of three-string structs cannot
  cause.
\<close>

definition lookup ::
  "'ip geoip \<Rightarrow> (uniqips \<Rightarrow> string list) \<Rightarrow> Heap \<Rightarrow> int \<Rightarrow> Request \<Rightarrow> reply" where
  "lookup g iter cache now r =
     (if Method r = ''OPTIONS'' then Written ''CORS :)''
      else (case Decoded r of
              Inl e \<Rightarrow> HttpError ''failed decoding input'' 400
            | Inr domains \<Rightarrow>
                (let uniqips = collect_domains cache now [] domains
                 in humanize g (iter uniqips) Map.empty)))"

section \<open>The process as a whole\<close>

text \<open>
  \<^verbatim>\<open>main\<close> starts the DNS listeners with the one handler and the HTTPS server with
  \<^verbatim>\<open>lookup\<close>; both share \<^verbatim>\<open>cache\<close>. \<open>serve\<close> is the cache after the process has
  handled a list of timed requests one after the other, none overlapping another. A
  panic of the DNS handler ends the run. \<^verbatim>\<open>lookup\<close> contains no \<^verbatim>\<open>cache.Set\<close>, so
  a report request hands the cache on as it found it.
\<close>

datatype event = DNSQuery Addr "string list" | LeakTest Request

fun serve :: "Heap \<Rightarrow> (int \<times> event) list \<Rightarrow> string + Heap" where
  "serve cache [] = Inr cache"
| "serve cache ((now, DNSQuery remote Question) # evs) =
     (case ServeDNS cache now remote Question of
        Inl p \<Rightarrow> Inl p
      | Inr cache' \<Rightarrow> serve cache' evs)"
| "serve cache ((now, LeakTest r) # evs) = serve cache evs"

text \<open>
  Handlers that overlap. The server runs each \<^verbatim>\<open>ServeDNS\<close> call on its own goroutine
  and \<^verbatim>\<open>main\<close> starts a UDP and a TCP listener, so two calls can be in flight at
  once. Between the address check and the end, a call touches the cache twice,
  \<^verbatim>\<open>cache.Get\<close> on line 48 and \<^verbatim>\<open>cache.Set\<close> on line 50, with nothing held in
  between; each of the two is taken as one indivisible step. A call that has passed
  line 43 is \<open>Fetching domain ip\<close>; once it has run lines 48 and 49 it is
  \<open>Storing domain ips\<close> with its local \<^verbatim>\<open>ips\<close>; after line 50 it is \<open>Finished\<close>.
\<close>

datatype handler = Fetching string string | Storing string string | Finished

fun handler_step :: "Heap \<Rightarrow> int \<Rightarrow> handler \<Rightarrow> Heap \<times> handler" where
  "handler_step cache now (Fetching domain ip) =
     (let ips = cache_Get cache now domain;
          ips = ips @ '','' @ ip
      in (cache, Storing domain ips))"
| "handler_step cache now (Storing domain ips) =
     (cache_Set cache now domain ips 300, Finished)"
| "handler_step cache now Finished = (cache, Finished)"

text \<open>
  A schedule names, step by step, the time and the call that moves next; a step that
  names no call in flight does nothing.
\<close>

fun interleave :: "Heap \<Rightarrow> handler list \<Rightarrow> (int \<times> nat) list \<Rightarrow> Heap \<times> handler list" where
  "interleave cache hs [] = (cache, hs)"
| "interleave cache hs ((now, i) # sched) =
     (if i < length hs
      then (case handler_step cache now (hs ! i) of
              (cache', h') \<Rightarrow> interleave cache' (hs[i := h']) sched)
      else interleave cache hs sched)"

text \<open>
  The calls in flight for the queries \<open>tas\<close> for one name, each past line 43, and the
  schedule that runs them one after the other: the call with number \<open>i\<close> takes its two
  steps at its time, with nothing in between (\<open>k\<close> is the number of the first call).
\<close>

definition calls :: "string \<Rightarrow> (int \<times> string) list \<Rightarrow> handler list" where
  "calls name tas = map (\<lambda>(t, a). Fetching (butlast name) a) tas"

definition one_by_one :: "nat \<Rightarrow> (int \<times> string) list \<Rightarrow> (int \<times> nat) list" where
  "one_by_one k tas = concat (map (\<lambda>(i, (t, a)). [(t, i), (t, i)]) (enumerate k tas))"

section \<open>Notions used in the statements\<close>

text \<open>
  Section 4.3 of the specification calls the two database reads together
  \<^verbatim>\<open>Resolve\<close>. \<open>Resolve\<close> follows those words: the network identifier and the entry
  of one address, or nothing when either read fails. The loop is compared with it in
  \<open>humanize_Cons\<close>.
\<close>

definition Resolve :: "'ip geoip \<Rightarrow> string \<Rightarrow> (nat \<times> Response) option" where
  "Resolve g ipstr =
     (case dbCountry g (ParseIP g ipstr) of
        Inl e \<Rightarrow> None
      | Inr country \<Rightarrow>
          (case dbASN g (ParseIP g ipstr) of
             Inl e \<Rightarrow> None
           | Inr isp \<Rightarrow> Some (fst isp, \<lparr>ISP = snd isp, Country = country, IP = ipstr\<rparr>)))"

text \<open>The keys the loop reaches before it meets the empty one.\<close>

definition visited :: "string list \<Rightarrow> string list" where
  "visited ks = takeWhile (\<lambda>ipstr. length ipstr \<noteq> 0) ks"

text \<open>The first entry per identifier among a list of addresses that all resolve.\<close>

primrec fill :: "'ip geoip \<Rightarrow> string list \<Rightarrow> (nat \<rightharpoonup> Response) \<Rightarrow> (nat \<rightharpoonup> Response)" where
  "fill g [] out = out"
| "fill g (a # as) out =
     (case Resolve g a of
        None \<Rightarrow> fill g as out
      | Some (n, r) \<Rightarrow> fill g as (if out n = None then out(n \<mapsto> r) else out))"

text \<open>
  Consecutive writes that each fall before the deadline the previous one set: \<open>d\<close> is
  the deadline in force, \<open>ts\<close> the times of the writes.
\<close>

fun in_window :: "int \<Rightarrow> int list \<Rightarrow> bool" where
  "in_window d [] = True"
| "in_window d (t # ts) = (t < d \<and> in_window (t + 300) ts)"

text \<open>
  The DNS queries, over UDP, that ask for one name from the addresses and at the times
  listed in \<open>tas\<close>.
\<close>

definition queries :: "string \<Rightarrow> (int \<times> string) list \<Rightarrow> (int \<times> event) list" where
  "queries name tas = map (\<lambda>(t, a). (t, DNSQuery (UDPAddr a) [name])) tas"

text \<open>A request that writes to the key \<open>key\<close>, if it gets that far.\<close>

fun writes_to :: "string \<Rightarrow> int \<times> event \<Rightarrow> bool" where
  "writes_to key (now, DNSQuery remote []) = False"
| "writes_to key (now, DNSQuery remote (name # qs)) = (butlast name = key)"
| "writes_to key (now, LeakTest r) = False"

section \<open>Examples\<close>

text \<open>
  Three orders in which a \<^verbatim>\<open>range\<close> may visit the keys: as first inserted, that order
  started one key later and wrapped around, and backwards.
\<close>

definition inserted_order :: "uniqips \<Rightarrow> string list" where
  "inserted_order m = map fst m"

definition rotated_order :: "uniqips \<Rightarrow> string list" where
  "rotated_order m = rotate1 (map fst m)"

definition reversed_order :: "uniqips \<Rightarrow> string list" where
  "reversed_order m = rev (map fst m)"

text \<open>
  \<^verbatim>\<open>net.ParseIP\<close> on dotted decimal text: four fields between the dots, each a
  decimal number from 0 to 255 with no leading zero. The text itself stands for the
  address it denotes; any other text gives \<^verbatim>\<open>nil\<close>. IPv6 text, which no example
  uses, is not covered.
\<close>

definition digit_value :: "char \<Rightarrow> nat option" where
  "digit_value c = map_of (zip ''0123456789'' [0, 1, 2, 3, 4, 5, 6, 7, 8, 9]) c"

primrec decimal :: "nat \<Rightarrow> string \<Rightarrow> nat option" where
  "decimal n [] = Some n"
| "decimal n (c # cs) =
     (case digit_value c of None \<Rightarrow> None | Some d \<Rightarrow> decimal (10 * n + d) cs)"

definition octet :: "string \<Rightarrow> bool" where
  "octet w =
     (case decimal 0 w of
        None \<Rightarrow> False
      | Some n \<Rightarrow>
          0 < length w \<and> n \<le> 255 \<and> (if length w = 1 then True else hd w \<noteq> CHR ''0''))"

definition ParseIPv4 :: "string \<Rightarrow> string option" where
  "ParseIPv4 s =
     (let fields = strings_Split s (CHR ''.'')
      in if length fields = 4 \<and> list_all octet fields then Some s else None)"

text \<open>
  The readers of \<^verbatim>\<open>github.com/oschwald/geoip2-golang\<close>, a dependency, over a database
  given as a map from addresses to records. Handed \<^verbatim>\<open>nil\<close>, a reader returns an
  error. For an address the database holds it returns the record. For an address the
  database does not hold it returns no error and the zero record: the empty ISO code,
  or the number 0 with the empty organisation.
\<close>

definition Reader_Country :: "('ip \<rightharpoonup> string) \<Rightarrow> 'ip option \<Rightarrow> string + string" where
  "Reader_Country db ip =
     (case ip of
        None \<Rightarrow> Inl ''IP passed to Lookup cannot be nil''
      | Some a \<Rightarrow> (case db a of None \<Rightarrow> Inr '''' | Some code \<Rightarrow> Inr code))"

definition Reader_ASN ::
  "('ip \<rightharpoonup> nat \<times> string) \<Rightarrow> 'ip option \<Rightarrow> string + (nat \<times> string)" where
  "Reader_ASN db ip =
     (case ip of
        None \<Rightarrow> Inl ''IP passed to Lookup cannot be nil''
      | Some a \<Rightarrow> (case db a of None \<Rightarrow> Inr (0, '''') | Some isp \<Rightarrow> Inr isp))"

text \<open>
  A pair of databases: \<^verbatim>\<open>1.2.3.4\<close> and \<^verbatim>\<open>5.6.7.8\<close> as in the specification's second
  scenario, \<^verbatim>\<open>1.2.9.9\<close> in the same network as \<^verbatim>\<open>1.2.3.4\<close> but another country, and
  no other address in either.
\<close>

definition example_countries :: "string \<rightharpoonup> string" where
  "example_countries = [''1.2.3.4'' \<mapsto> ''US'', ''5.6.7.8'' \<mapsto> ''DE'', ''1.2.9.9'' \<mapsto> ''CA'']"

definition example_networks :: "string \<rightharpoonup> nat \<times> string" where
  "example_networks =
     [''1.2.3.4'' \<mapsto> (64500, ''ExampleISP''), ''5.6.7.8'' \<mapsto> (64501, ''OtherISP''),
      ''1.2.9.9'' \<mapsto> (64500, ''ExampleISP'')]"

definition example_Country :: "string option \<Rightarrow> string + string" where
  "example_Country ip = Reader_Country example_countries ip"

definition example_ASN :: "string option \<Rightarrow> string + (nat \<times> string)" where
  "example_ASN ip = Reader_ASN example_networks ip"

definition example_geoip :: "string geoip" where
  "example_geoip = \<lparr>ParseIP = ParseIPv4, dbCountry = example_Country, dbASN = example_ASN\<rparr>"


definition post :: "string list \<Rightarrow> Request" where
  "post domains = \<lparr>Method = ''POST'', Decoded = Inr domains\<rparr>"

section \<open>Splitting what the handler stored\<close>

lemma strings_Split_not_Nil: "strings_Split s sep \<noteq> []"
  by (induction s) (auto split: list.splits)

lemma strings_Split_no_sep: "sep \<notin> set a \<Longrightarrow> strings_Split a sep = [a]"
  by (induction a) auto

lemma strings_Split_sep:
  "strings_Split (p @ sep # s) sep = strings_Split p sep @ strings_Split s sep"
proof (induction p)
  case Nil
  show ?case by simp
next
  case (Cons c p)
  obtain w ws where "strings_Split p sep = w # ws"
    using strings_Split_not_Nil[of p sep] by (cases "strings_Split p sep") auto
  with Cons show ?case by simp
qed

lemma Split_appended:
  "\<forall>a\<in>set as. CHR '','' \<notin> set a \<Longrightarrow>
   strings_Split (p @ concat (map (\<lambda>a. '','' @ a) as)) (CHR '','') =
     strings_Split p (CHR '','') @ as"
proof (induction as arbitrary: p)
  case Nil
  show ?case by simp
next
  case (Cons a as)
  have "strings_Split ((p @ '','' @ a) @ concat (map (\<lambda>a. '','' @ a) as)) (CHR '','') =
          strings_Split (p @ '','' @ a) (CHR '','') @ as"
    using Cons.prems by (intro Cons.IH) simp
  moreover have "strings_Split (p @ '','' @ a) (CHR '','') = strings_Split p (CHR '','') @ [a]"
    using Cons.prems by (simp add: strings_Split_sep strings_Split_no_sep)
  ultimately show ?case by simp
qed

section \<open>What one call of the handler writes\<close>

lemma ServeDNS_append:
  assumes "ip \<noteq> ''''" "remote = UDPAddr ip \<or> remote = TCPAddr ip" "name \<noteq> ''''"
  shows "ServeDNS cache now remote (name # qs) =
           Inr (cache(butlast name \<mapsto> (cache_Get cache now (butlast name) @ '','' @ ip, now + 300)))"
  using assms by (auto simp: ServeDNS_def cache_Set_def butlast_conv_take Let_def)

lemma ServeDNS_Inr:
  assumes "ServeDNS cache now remote Question = Inr cache'"
  obtains ip name qs where "ip \<noteq> ''''" "remote = UDPAddr ip \<or> remote = TCPAddr ip" "name \<noteq> ''''"
    "Question = name # qs"
    "cache' = cache(butlast name \<mapsto> (cache_Get cache now (butlast name) @ '','' @ ip, now + 300))"
  using assms
  by (cases remote; cases Question)
     (auto simp: ServeDNS_def cache_Set_def butlast_conv_take Let_def split: if_splits)

section \<open>Calls for one name, one after the other\<close>

lemma serve_queries_live:
  assumes "cache (butlast name) = Some (v, d)" "in_window d (map fst tas)"
    "\<forall>a\<in>set (map snd tas). a \<noteq> ''''" "name \<noteq> ''''"
  shows "serve cache (queries name tas) =
           Inr (cache(butlast name \<mapsto>
                  (v @ concat (map (\<lambda>a. '','' @ a) (map snd tas)),
                   last ((d - 300) # map fst tas) + 300)))"
  using assms(1-3)
proof (induction tas arbitrary: cache v d)
  case Nil
  then show ?case by (simp add: queries_def fun_upd_idem)
next
  case (Cons ta tas)
  obtain t a where ta: "ta = (t, a)" by (cases ta)
  from Cons.prems ta have t: "t < d" and w: "in_window (t + 300) (map fst tas)"
    and a: "a \<noteq> ''''" and rest: "\<forall>a\<in>set (map snd tas). a \<noteq> ''''"
    by simp_all
  let ?key = "butlast name"
  let ?c1 = "cache(?key \<mapsto> (v @ '','' @ a, t + 300))"
  have get: "cache_Get cache t ?key = v"
    using Cons.prems(1) t by (simp add: cache_Get_def)
  have s1: "ServeDNS cache t (UDPAddr a) [name] = Inr ?c1"
    using ServeDNS_append[of a "UDPAddr a" name cache t "[]"] a assms(4) get by simp
  have "serve cache (queries name (ta # tas)) = serve ?c1 (queries name tas)"
    using s1 ta by (simp add: queries_def)
  also have "\<dots> =
          Inr (?c1(?key \<mapsto> ((v @ '','' @ a) @ concat (map (\<lambda>a. '','' @ a) (map snd tas)),
                 last ((t + 300 - 300) # map fst tas) + 300)))"
    by (rule Cons.IH) (use w rest in simp_all)
  also have "\<dots> =
          Inr (cache(?key \<mapsto> (v @ concat (map (\<lambda>a. '','' @ a) (map snd (ta # tas))),
                 last ((d - 300) # map fst (ta # tas)) + 300)))"
    using ta by simp
  finally show ?case .
qed

lemma serve_queries_first:
  assumes "in_window (t1 + 300) (map fst tas)"
    "a1 \<noteq> ''''" "\<forall>a\<in>set (map snd tas). a \<noteq> ''''" "name \<noteq> ''''"
  shows "serve cache (queries name ((t1, a1) # tas)) =
           Inr (cache(butlast name \<mapsto>
                  (cache_Get cache t1 (butlast name) @
                     concat (map (\<lambda>a. '','' @ a) (a1 # map snd tas)),
                   last (t1 # map fst tas) + 300)))"
proof -
  let ?key = "butlast name"
  let ?v = "cache_Get cache t1 ?key"
  let ?c1 = "cache(?key \<mapsto> (?v @ '','' @ a1, t1 + 300))"
  have s1: "ServeDNS cache t1 (UDPAddr a1) [name] = Inr ?c1"
    using ServeDNS_append[of a1 "UDPAddr a1" name cache t1 "[]"] assms by simp
  have "serve cache (queries name ((t1, a1) # tas)) = serve ?c1 (queries name tas)"
    using s1 by (simp add: queries_def)
  also have "\<dots> =
          Inr (?c1(?key \<mapsto> ((?v @ '','' @ a1) @ concat (map (\<lambda>a. '','' @ a) (map snd tas)),
                 last ((t1 + 300 - 300) # map fst tas) + 300)))"
    by (rule serve_queries_live) (use assms in simp_all)
  also have "\<dots> =
          Inr (cache(?key \<mapsto> (?v @ concat (map (\<lambda>a. '','' @ a) (a1 # map snd tas)),
                 last (t1 # map fst tas) + 300)))"
    by simp
  finally show ?thesis .
qed

lemma serve_other_keys:
  "serve cache evs = Inr cache' \<Longrightarrow> \<forall>e\<in>set evs. \<not> writes_to key e \<Longrightarrow> cache' key = cache key"
proof (induction cache evs rule: serve.induct)
  case (1 cache)
  then show ?case by simp
next
  case (2 cache now remote Question evs)
  from "2.prems"(1) obtain c1 where c1: "ServeDNS cache now remote Question = Inr c1"
    and rest: "serve c1 evs = Inr cache'"
    by (auto split: sum.splits)
  from c1 obtain ip name qs where q: "Question = name # qs"
    and upd: "c1 = cache(butlast name \<mapsto> (cache_Get cache now (butlast name) @ '','' @ ip, now + 300))"
    by (rule ServeDNS_Inr)
  from "2.prems"(2) q have "butlast name \<noteq> key" by simp
  with upd have "c1 key = cache key" by simp
  moreover have "cache' key = c1 key"
    using "2.IH"[OF c1 rest] "2.prems"(2) by simp
  ultimately show ?case by simp
next
  case (3 cache now r evs)
  then show ?case by simp
qed



section \<open>The write path\<close>



text \<open>
  Claim C1, as amended. Two calls for the same name, the first finding the key absent
  or expired, the second before the first one's deadline, and a read before the
  second one's deadline: both calls succeed, and splitting what the read returns gives
  three pieces, the empty string and then the two addresses in the order of the calls.
  The addresses are not empty and hold no \<^verbatim>\<open>,\<close>, as the text of an IP address does
  not.
\<close>
theorem append_twice_read:
  assumes "cache_Get cache t1 (butlast name) = ''''"
    and "name \<noteq> ''''"
    and "a1 \<noteq> ''''" "CHR '','' \<notin> set a1" "r1 = UDPAddr a1 \<or> r1 = TCPAddr a1"
    and "a2 \<noteq> ''''" "CHR '','' \<notin> set a2" "r2 = UDPAddr a2 \<or> r2 = TCPAddr a2"
    and "t2 < t1 + 300" "t3 < t2 + 300"
  shows "\<exists>c2. serve cache [(t1, DNSQuery r1 (name # qs1)), (t2, DNSQuery r2 (name # qs2))] = Inr c2
            \<and> strings_Split (cache_Get c2 t3 (butlast name)) (CHR '','') = ['''', a1, a2]"
proof -
  let ?key = "butlast name"
  let ?c1 = "cache(?key \<mapsto> ('','' @ a1, t1 + 300))"
  let ?c2 = "cache(?key \<mapsto> ('','' @ a1 @ '','' @ a2, t2 + 300))"
  have s1: "ServeDNS cache t1 r1 (name # qs1) = Inr ?c1"
    using ServeDNS_append[of a1 r1 name cache t1 qs1] assms by simp
  have "cache_Get ?c1 t2 ?key = '','' @ a1"
    using assms(9) by (simp add: cache_Get_def)
  then have s2: "ServeDNS ?c1 t2 r2 (name # qs2) = Inr ?c2"
    using ServeDNS_append[of a2 r2 name ?c1 t2 qs2] assms by simp
  have "cache_Get ?c2 t3 ?key = '''' @ concat (map (\<lambda>a. '','' @ a) [a1, a2])"
    using assms(10) by (simp add: cache_Get_def)
  then have "strings_Split (cache_Get ?c2 t3 ?key) (CHR '','') = strings_Split '''' (CHR '','') @ [a1, a2]"
    using Split_appended[of "[a1, a2]" "''''"] assms(4,7) by simp
  with s1 s2 show ?thesis by simp
qed

theorem append_twice_read_witness:
  "cache_Get Map.empty 0 (butlast ''a1b2.example.com.'') = ''''
   \<and> (\<exists>c2. serve Map.empty
              [(0, DNSQuery (UDPAddr ''1.2.3.4'') [''a1b2.example.com.'']),
               (1, DNSQuery (TCPAddr ''5.6.7.8'') [''a1b2.example.com.''])] = Inr c2
          \<and> strings_Split (cache_Get c2 2 (butlast ''a1b2.example.com.'')) (CHR '','') =
              ['''', ''1.2.3.4'', ''5.6.7.8''])"
  using append_twice_read [of Map.empty 0 "''a1b2.example.com.''" "''1.2.3.4''"
      "UDPAddr ''1.2.3.4''" "''5.6.7.8''" "TCPAddr ''5.6.7.8''" 1 2 "[]" "[]"]
  by (simp add: cache_Get_def)

text \<open>
  The claim as written, that the read gives exactly the two addresses, fails on the
  specification's own first scenario: the split has a third piece, the empty string
  in front.
\<close>

theorem append_twice_read_extra_element:
  "serve Map.empty
     [(0, DNSQuery (UDPAddr ''1.2.3.4'') [''a1b2.example.com.'']),
      (1, DNSQuery (UDPAddr ''5.6.7.8'') [''a1b2.example.com.''])] =
     Inr [''a1b2.example.com'' \<mapsto> ('',1.2.3.4,5.6.7.8'', 301)]
   \<and> strings_Split (cache_Get [''a1b2.example.com'' \<mapsto> ('',1.2.3.4,5.6.7.8'', 301)] 2
        ''a1b2.example.com'') (CHR '','') = ['''', ''1.2.3.4'', ''5.6.7.8'']
   \<and> strings_Split (cache_Get [''a1b2.example.com'' \<mapsto> ('',1.2.3.4,5.6.7.8'', 301)] 2
        ''a1b2.example.com'') (CHR '','') \<noteq> [''1.2.3.4'', ''5.6.7.8'']"
  by (simp add: ServeDNS_def cache_Get_def cache_Set_def)

section \<open>Expiry\<close>

text \<open>
  Claim C6. After a call of the handler at time \<open>t0\<close> has recorded an address for a
  name, let the process handle any further requests that do not write to that key:
  reports, also for that very name, and queries for other names. Then the record
  still carries the deadline \<open>t0 + 300\<close> that the write set, and a read at any time
  from that deadline on returns the empty string. Only a write moves the deadline;
  a report does not.
\<close>
theorem expired_read_is_empty:
  assumes "ServeDNS cache t0 remote (name # qs) = Inr cache1"
    and "serve cache1 evs = Inr cache2"
    and "\<forall>e\<in>set evs. \<not> writes_to (butlast name) e"
    and "t0 + 300 \<le> t"
  shows "cache_Get cache2 t (butlast name) = ''''
       \<and> (\<exists>v. cache2 (butlast name) = Some (v, t0 + 300))"
proof -
  from assms(1) obtain ip name' qs' where q: "name # qs = name' # qs'"
    and upd: "cache1 = cache(butlast name' \<mapsto> (cache_Get cache t0 (butlast name') @ '','' @ ip, t0 + 300))"
    by (rule ServeDNS_Inr)
  from q have "name' = name" by simp
  with upd have "cache1 (butlast name) = Some (cache_Get cache t0 (butlast name) @ '','' @ ip, t0 + 300)"
    by simp
  moreover have "cache2 (butlast name) = cache1 (butlast name)"
    using assms(2,3) by (rule serve_other_keys)
  ultimately have "cache2 (butlast name) = Some (cache_Get cache t0 (butlast name) @ '','' @ ip, t0 + 300)"
    by simp
  then show ?thesis
    using assms(4) by (simp add: cache_Get_def)
qed

theorem expired_read_is_empty_witness:
  "ServeDNS Map.empty 0 (UDPAddr ''1.2.3.4'') [''x.test.''] = Inr [''x.test'' \<mapsto> ('',1.2.3.4'', 300)]
   \<and> serve [''x.test'' \<mapsto> ('',1.2.3.4'', 300)]
        [(100, LeakTest (post [''x.test''])),
         (200, DNSQuery (UDPAddr ''5.6.7.8'') [''y.test.'']),
         (299, LeakTest (post [''x.test'', ''y.test'']))] =
       Inr [''x.test'' \<mapsto> ('',1.2.3.4'', 300), ''y.test'' \<mapsto> ('',5.6.7.8'', 500)]
   \<and> cache_Get [''x.test'' \<mapsto> ('',1.2.3.4'', 300), ''y.test'' \<mapsto> ('',5.6.7.8'', 500)] 299 ''x.test'' = '',1.2.3.4''
   \<and> (0::int) + 300 \<le> 300
   \<and> cache_Get [''x.test'' \<mapsto> ('',1.2.3.4'', 300), ''y.test'' \<mapsto> ('',5.6.7.8'', 500)] 300 (butlast ''x.test.'') = ''''"
proof -
  have a: "ServeDNS Map.empty 0 (UDPAddr ''1.2.3.4'') [''x.test.''] = Inr [''x.test'' \<mapsto> ('',1.2.3.4'', 300)]"
    by (simp add: ServeDNS_def cache_Get_def cache_Set_def)
  have b: "serve [''x.test'' \<mapsto> ('',1.2.3.4'', 300)]
        [(100, LeakTest (post [''x.test''])),
         (200, DNSQuery (UDPAddr ''5.6.7.8'') [''y.test.'']),
         (299, LeakTest (post [''x.test'', ''y.test'']))] =
       Inr [''x.test'' \<mapsto> ('',1.2.3.4'', 300), ''y.test'' \<mapsto> ('',5.6.7.8'', 500)]"
    by (simp add: ServeDNS_def cache_Get_def cache_Set_def)
  have c: "\<forall>e\<in>set [(100, LeakTest (post [''x.test''])),
         (200, DNSQuery (UDPAddr ''5.6.7.8'') [''y.test.'']),
         (299::int, LeakTest (post [''x.test'', ''y.test'']))]. \<not> writes_to (butlast ''x.test.'') e"
    by simp
  have d: "(0::int) + 300 \<le> 300" by simp
  show ?thesis
    using a b d expired_read_is_empty [OF a b c d]
    by (simp add: cache_Get_def)
qed

section \<open>What the handler does with the name and with the remote address\<close>

text \<open>
  Claim C7, as amended. For an address that is not empty and a name that is not
  empty, the handler drops the last byte of the name, whatever it is, and writes under
  the resulting key what it read there, the separator and the address, with a TTL of
  300 seconds. For a name that ends in the root separator the key is the name without
  that one separator.
\<close>
theorem ServeDNS_drops_last_byte:
  assumes "ip \<noteq> ''''" "remote = UDPAddr ip \<or> remote = TCPAddr ip" "name \<noteq> ''''"
  shows "ServeDNS cache now remote (name # qs) =
           Inr (cache_Set cache now (butlast name)
                  (cache_Get cache now (butlast name) @ '','' @ ip) 300)
       \<and> (name = d @ ''.'' \<longrightarrow> butlast name = d)"
  using ServeDNS_append[OF assms] by (auto simp: cache_Set_def)

theorem ServeDNS_drops_last_byte_witness:
  "''1.2.3.4'' \<noteq> '''' \<and> ''x.test.'' \<noteq> '''' \<and> ''x.test.'' = ''x.test'' @ ''.''
   \<and> ServeDNS Map.empty 0 (UDPAddr ''1.2.3.4'') [''x.test.''] =
       Inr (cache_Set Map.empty 0 ''x.test'' (cache_Get Map.empty 0 ''x.test'' @ '','' @ ''1.2.3.4'') 300)"
  using ServeDNS_drops_last_byte [of "''1.2.3.4''" "UDPAddr ''1.2.3.4''" "''x.test.''"
      Map.empty 0 "[]" "''x.test''"]
  by simp

text \<open>
  The claim as written also says that a name without the root separator is left as it
  is. The handler does not look at the last byte: \<^verbatim>\<open>x.test\<close> is recorded under
  \<^verbatim>\<open>x.tes\<close>, not under \<^verbatim>\<open>x.test\<close>.
\<close>

theorem ServeDNS_alters_undotted_domain:
  "ServeDNS Map.empty 0 (UDPAddr ''1.2.3.4'') [''x.test''] =
     Inr (cache_Set Map.empty 0 ''x.tes'' (cache_Get Map.empty 0 ''x.tes'' @ '','' @ ''1.2.3.4'') 300)
   \<and> ServeDNS Map.empty 0 (UDPAddr ''1.2.3.4'') [''x.test''] \<noteq>
     Inr (cache_Set Map.empty 0 ''x.test'' (cache_Get Map.empty 0 ''x.test'' @ '','' @ ''1.2.3.4'') 300)"
proof -
  have "[''x.tes'' \<mapsto> ('',1.2.3.4'', 300::int)] ''x.test'' \<noteq>
        [''x.test'' \<mapsto> ('',1.2.3.4'', 300::int)] ''x.test''"
    by simp
  then have "[''x.tes'' \<mapsto> ('',1.2.3.4'', 300::int)] \<noteq> [''x.test'' \<mapsto> ('',1.2.3.4'', 300::int)]"
    by metis
  then show ?thesis
    by (simp add: ServeDNS_def cache_Get_def cache_Set_def)
qed

text \<open>
  Claim C8, as amended. A remote address that is neither a UDP nor a TCP address
  leaves \<^verbatim>\<open>ip\<close> empty, and the handler panics with \<^verbatim>\<open>IP not found?\<close> before it
  looks at the question or at the cache, whatever they are.
\<close>
theorem ServeDNS_unknown_address_panics:
  "ServeDNS cache now OtherAddr Question = Inl ''IP not found?''"
  by (simp add: ServeDNS_def)

text \<open>
  The claim as written, that such a query is ignored and the listener goes on, fails:
  the call panics, and the query that follows it is never served.
\<close>

theorem ServeDNS_panic_example:
  "ServeDNS Map.empty 0 OtherAddr [''x.test.''] = Inl ''IP not found?''
   \<and> serve Map.empty [(0, DNSQuery OtherAddr [''x.test.'']),
                       (1, DNSQuery (UDPAddr ''1.2.3.4'') [''x.test.''])] = Inl ''IP not found?''"
  by (simp add: ServeDNS_def)

section \<open>The report\<close>

lemma humanize_Cons:
  "humanize g (ipstr # rest) out =
     (if ipstr = '''' then Json out
      else (case Resolve g ipstr of
              None \<Rightarrow> HttpError ''failed parsing IPs'' 400
            | Some (n, r) \<Rightarrow> humanize g rest (if out n = None then out(n \<mapsto> r) else out)))"
  by (simp add: Resolve_def Let_def split: sum.splits)

lemma humanize_keeps:
  "humanize g ks out = Json out' \<Longrightarrow> out n = Some r \<Longrightarrow> out' n = Some r"
proof (induction ks arbitrary: out)
  case Nil
  then show ?case by simp
next
  case (Cons k ks)
  show ?case
  proof (cases "k = ''''")
    case True
    with Cons.prems show ?thesis by simp
  next
    case False
    with Cons.prems(1) obtain m e where res: "Resolve g k = Some (m, e)"
      and rest: "humanize g ks (if out m = None then out(m \<mapsto> e) else out) = Json out'"
      by (auto simp: humanize_Cons simp del: humanize.simps split: option.splits)
    have "(if out m = None then out(m \<mapsto> e) else out) n = Some r"
      using Cons.prems(2) by auto
    with Cons.IH[OF rest] show ?thesis .
  qed
qed

lemma humanize_untouched:
  assumes "humanize g (earlier @ later) out = Json out'"
    and "'''' \<notin> set earlier"
    and "\<forall>b\<in>set earlier. \<forall>m org. dbASN g (ParseIP g b) = Inr (m, org) \<longrightarrow> m \<noteq> n"
    and "out n = None"
  shows "\<exists>mid. mid n = None \<and> humanize g later mid = Json out'"
  using assms
proof (induction earlier arbitrary: out)
  case Nil
  then show ?case by auto
next
  case (Cons k earlier)
  from Cons.prems(2) have k: "k \<noteq> ''''" by auto
  with Cons.prems(1) obtain m e where res: "Resolve g k = Some (m, e)"
    and rest: "humanize g (earlier @ later) (if out m = None then out(m \<mapsto> e) else out) = Json out'"
    by (auto simp: humanize_Cons simp del: humanize.simps split: option.splits)
  from res obtain org where "dbASN g (ParseIP g k) = Inr (m, org)"
    by (auto simp: Resolve_def split: sum.splits)
  with Cons.prems(3) have "m \<noteq> n" by auto
  with Cons.prems(4) have "(if out m = None then out(m \<mapsto> e) else out) n = None" by simp
  with Cons.IH[OF rest] Cons.prems(2,3) show ?case by simp
qed

text \<open>
  Claim C4. Let a report succeed, and let \<open>a\<close> be an address that the loop reaches
  (no empty key before it) and that resolves to the identifier \<open>n\<close>, with no address
  before it in the loop resolving to \<open>n\<close>. Then the entry under \<open>n\<close> in the reply is
  the one built from \<open>a\<close>: its organisation, its country and \<open>a\<close> itself, whatever
  addresses the loop visits after \<open>a\<close> and whatever they resolve to.
\<close>
theorem first_seen_wins:
  assumes "lookup g iter cache now r = Json out"
    and "Method r \<noteq> ''OPTIONS''" "Decoded r = Inr domains"
    and "iter (collect_domains cache now [] domains) = earlier @ a # later"
    and "'''' \<notin> set earlier" "a \<noteq> ''''"
    and "dbCountry g (ParseIP g a) = Inr country"
    and "dbASN g (ParseIP g a) = Inr (n, org)"
    and "\<forall>b\<in>set earlier. \<forall>m org'. dbASN g (ParseIP g b) = Inr (m, org') \<longrightarrow> m \<noteq> n"
  shows "out n = Some \<lparr>ISP = org, Country = country, IP = a\<rparr>"
proof -
  from assms(1-4) have run: "humanize g (earlier @ a # later) Map.empty = Json out"
    by (simp add: lookup_def)
  then obtain mid where mid: "mid n = None" and h: "humanize g (a # later) mid = Json out"
    using humanize_untouched[OF run assms(5) assms(9)] by auto
  have res: "Resolve g a = Some (n, \<lparr>ISP = org, Country = country, IP = a\<rparr>)"
    using assms(7,8) by (simp add: Resolve_def)
  from h assms(6) res mid
  have "humanize g later (mid(n \<mapsto> \<lparr>ISP = org, Country = country, IP = a\<rparr>)) = Json out"
    by (simp add: humanize_Cons del: humanize.simps)
  then show ?thesis
    by (rule humanize_keeps) simp
qed

lemmas example_defs =
  lookup_def post_def cache_Get_def count_ip_def Resolve_def range_order_def
  inserted_order_def rotated_order_def reversed_order_def
  example_geoip_def example_Country_def example_ASN_def
  Reader_Country_def Reader_ASN_def example_countries_def example_networks_def
  ParseIPv4_def octet_def digit_value_def

lemma distinct_count_ip: "distinct (map fst m) \<Longrightarrow> distinct (map fst (count_ip m ip))"
  by (simp add: count_ip_def Let_def distinct_update)

lemma distinct_count_ips: "distinct (map fst m) \<Longrightarrow> distinct (map fst (count_ips m ips))"
  by (induction ips arbitrary: m) (simp_all add: distinct_count_ip)

lemma distinct_collect_domains_from:
  "distinct (map fst m) \<Longrightarrow> distinct (map fst (collect_domains cache now m domains))"
  by (induction domains arbitrary: m) (simp_all add: distinct_count_ips Let_def)

lemma distinct_collect_domains: "distinct (map fst (collect_domains cache now [] domains))"
  by (rule distinct_collect_domains_from) simp

lemma range_order_inserted: "distinct (map fst m) \<Longrightarrow> range_order inserted_order m"
  by (simp add: range_order_def inserted_order_def)

lemma range_order_rotated: "distinct (map fst m) \<Longrightarrow> range_order rotated_order m"
  by (simp add: range_order_def rotated_order_def)

lemma range_order_reversed: "distinct (map fst m) \<Longrightarrow> range_order reversed_order m"
  by (simp add: range_order_def reversed_order_def)

theorem first_seen_wins_witness:
  "lookup example_geoip rotated_order [''x.test'' \<mapsto> ('',1.2.3.4,1.2.9.9'', 300)] 10 (post [''x.test'']) =
     Json [64500 \<mapsto> \<lparr>ISP = ''ExampleISP'', Country = ''US'', IP = ''1.2.3.4''\<rparr>]
   \<and> rotated_order (collect_domains [''x.test'' \<mapsto> ('',1.2.3.4,1.2.9.9'', 300)] 10 [] [''x.test'']) =
       [] @ ''1.2.3.4'' # [''1.2.9.9'', '''']
   \<and> dbASN example_geoip (ParseIP example_geoip ''1.2.3.4'') = Inr (64500, ''ExampleISP'')
   \<and> dbASN example_geoip (ParseIP example_geoip ''1.2.9.9'') = Inr (64500, ''ExampleISP'')
   \<and> dbCountry example_geoip (ParseIP example_geoip ''1.2.9.9'') = Inr ''CA''
   \<and> [64500 \<mapsto> \<lparr>ISP = ''ExampleISP'', Country = ''US'', IP = ''1.2.3.4''\<rparr>] (64500::nat) =
       Some \<lparr>ISP = ''ExampleISP'', Country = ''US'', IP = ''1.2.3.4''\<rparr>"
proof -
  have a: "lookup example_geoip rotated_order [''x.test'' \<mapsto> ('',1.2.3.4,1.2.9.9'', 300)] 10 (post [''x.test'']) =
     Json [64500 \<mapsto> \<lparr>ISP = ''ExampleISP'', Country = ''US'', IP = ''1.2.3.4''\<rparr>]"
    by (simp add: example_defs)
  have b: "Method (post [''x.test'']) \<noteq> ''OPTIONS''" "Decoded (post [''x.test'']) = Inr [''x.test'']"
    by (simp_all add: post_def)
  have c: "rotated_order (collect_domains [''x.test'' \<mapsto> ('',1.2.3.4,1.2.9.9'', 300)] 10 [] [''x.test'']) =
       [] @ ''1.2.3.4'' # [''1.2.9.9'', '''']"
    by (simp add: example_defs)
  have d: "dbCountry example_geoip (ParseIP example_geoip ''1.2.3.4'') = Inr ''US''"
    "dbASN example_geoip (ParseIP example_geoip ''1.2.3.4'') = Inr (64500, ''ExampleISP'')"
    by (simp_all add: example_defs)
  have e: "dbASN example_geoip (ParseIP example_geoip ''1.2.9.9'') = Inr (64500, ''ExampleISP'')"
    "dbCountry example_geoip (ParseIP example_geoip ''1.2.9.9'') = Inr ''CA''"
    by (simp_all add: example_defs)
  have f: "[64500 \<mapsto> \<lparr>ISP = ''ExampleISP'', Country = ''US'', IP = ''1.2.3.4''\<rparr>] (64500::nat) =
       Some \<lparr>ISP = ''ExampleISP'', Country = ''US'', IP = ''1.2.3.4''\<rparr>"
    using first_seen_wins [OF a b c _ _ d] by simp
  from a c d e f show ?thesis by simp
qed

text \<open>
  Claim C2 says that every address that is not empty is resolved and considered for
  the reply. The loop leaves at the empty key (\<^verbatim>\<open>break\<close>, line 103) instead of going on
  to the next key, so what it visits after the empty key is never resolved. One query
  for \<^verbatim>\<open>x.test.\<close> from \<^verbatim>\<open>1.2.3.4\<close> leaves two keys, the empty string and
  \<^verbatim>\<open>1.2.3.4\<close>; when the \<^verbatim>\<open>range\<close> visits them in that order the reply is the empty
  mapping, although the address is recorded and resolves.
\<close>
theorem lookup_leaves_loop_at_empty_key:
  "serve Map.empty [(0, DNSQuery (UDPAddr ''1.2.3.4'') [''x.test.''])] =
     Inr [''x.test'' \<mapsto> ('',1.2.3.4'', 300)]
   \<and> collect_domains [''x.test'' \<mapsto> ('',1.2.3.4'', 300)] 1 [] [''x.test''] =
       [('''', 1), (''1.2.3.4'', 1)]
   \<and> range_order inserted_order [('''', 1), (''1.2.3.4'', 1)]
   \<and> Resolve example_geoip ''1.2.3.4'' =
       Some (64500, \<lparr>ISP = ''ExampleISP'', Country = ''US'', IP = ''1.2.3.4''\<rparr>)
   \<and> lookup example_geoip inserted_order [''x.test'' \<mapsto> ('',1.2.3.4'', 300)] 1 (post [''x.test'']) =
       Json Map.empty"
  by (simp add: example_defs ServeDNS_def cache_Set_def)

lemma humanize_fails:
  "\<exists>a\<in>set (visited ks). Resolve g a = None \<Longrightarrow>
   humanize g ks out = HttpError ''failed parsing IPs'' 400"
proof (induction ks arbitrary: out)
  case Nil
  then show ?case by (simp add: visited_def)
next
  case (Cons k ks)
  from Cons.prems have k: "k \<noteq> ''''" by (auto simp: visited_def split: if_splits)
  show ?case
  proof (cases "Resolve g k")
    case None
    with k show ?thesis by (simp add: humanize_Cons del: humanize.simps)
  next
    case (Some nr)
    obtain n r where nr: "nr = (n, r)" by (cases nr)
    from Cons.prems k Some have "\<exists>a\<in>set (visited ks). Resolve g a = None"
      by (auto simp: visited_def)
    then have "humanize g ks (if out n = None then out(n \<mapsto> r) else out) =
                 HttpError ''failed parsing IPs'' 400"
      by (rule Cons.IH)
    with k Some nr show ?thesis by (simp add: humanize_Cons del: humanize.simps)
  qed
qed




text \<open>
  Claim C9 as written, that two reports over the same cache and the same list of
  domains are equal, fails when two recorded addresses share an identifier: the entry
  kept is that of the address the \<^verbatim>\<open>range\<close> visits first, and Go does not fix the
  order. Both orders below visit every address before the empty key.
\<close>
theorem lookup_depends_on_range_order:
  "range_order rotated_order
     (collect_domains [''x.test'' \<mapsto> ('',1.2.3.4,1.2.9.9'', 300)] 10 [] [''x.test''])
   \<and> range_order reversed_order
     (collect_domains [''x.test'' \<mapsto> ('',1.2.3.4,1.2.9.9'', 300)] 10 [] [''x.test''])
   \<and> lookup example_geoip rotated_order [''x.test'' \<mapsto> ('',1.2.3.4,1.2.9.9'', 300)] 10 (post [''x.test'']) =
       Json [64500 \<mapsto> \<lparr>ISP = ''ExampleISP'', Country = ''US'', IP = ''1.2.3.4''\<rparr>]
   \<and> lookup example_geoip reversed_order [''x.test'' \<mapsto> ('',1.2.3.4,1.2.9.9'', 300)] 10 (post [''x.test'']) =
       Json [64500 \<mapsto> \<lparr>ISP = ''ExampleISP'', Country = ''CA'', IP = ''1.2.9.9''\<rparr>]
   \<and> lookup example_geoip rotated_order [''x.test'' \<mapsto> ('',1.2.3.4,1.2.9.9'', 300)] 10 (post [''x.test'']) \<noteq>
     lookup example_geoip reversed_order [''x.test'' \<mapsto> ('',1.2.3.4,1.2.9.9'', 300)] 10 (post [''x.test''])"
proof -
  have "[64500 \<mapsto> \<lparr>ISP = ''ExampleISP'', Country = ''US'', IP = ''1.2.3.4''\<rparr>] (64500::nat) \<noteq>
        [64500 \<mapsto> \<lparr>ISP = ''ExampleISP'', Country = ''CA'', IP = ''1.2.9.9''\<rparr>] 64500"
    by simp
  then have "[(64500::nat) \<mapsto> \<lparr>ISP = ''ExampleISP'', Country = ''US'', IP = ''1.2.3.4''\<rparr>] \<noteq>
        [64500 \<mapsto> \<lparr>ISP = ''ExampleISP'', Country = ''CA'', IP = ''1.2.9.9''\<rparr>]"
    by metis
  moreover have "range_order rotated_order
     (collect_domains [''x.test'' \<mapsto> ('',1.2.3.4,1.2.9.9'', 300)] 10 [] [''x.test''])"
    by (rule range_order_rotated) (rule distinct_collect_domains)
  moreover have "range_order reversed_order
     (collect_domains [''x.test'' \<mapsto> ('',1.2.3.4,1.2.9.9'', 300)] 10 [] [''x.test''])"
    by (rule range_order_reversed) (rule distinct_collect_domains)
  ultimately show ?thesis
    by (simp add: example_defs)
qed

lemma humanize_fill:
  "\<forall>a\<in>set (visited ks). Resolve g a \<noteq> None \<Longrightarrow>
   humanize g ks out = Json (fill g (visited ks) out)"
proof (induction ks arbitrary: out)
  case Nil
  then show ?case by (simp add: visited_def)
next
  case (Cons k ks)
  show ?case
  proof (cases "k = ''''")
    case True
    then show ?thesis by (simp add: visited_def)
  next
    case False
    with Cons.prems obtain n r where res: "Resolve g k = Some (n, r)"
      by (auto simp: visited_def)
    from Cons.prems False have "\<forall>a\<in>set (visited ks). Resolve g a \<noteq> None"
      by (simp add: visited_def)
    then have "humanize g ks (if out n = None then out(n \<mapsto> r) else out) =
                 Json (fill g (visited ks) (if out n = None then out(n \<mapsto> r) else out))"
      by (rule Cons.IH)
    with False res show ?thesis
      by (simp add: humanize_Cons visited_def del: humanize.simps)
  qed
qed

lemma fill_at:
  "fill g as out n =
     (case out n of
        Some r \<Rightarrow> Some r
      | None \<Rightarrow>
          (case find (\<lambda>a. map_option fst (Resolve g a) = Some n) as of
             None \<Rightarrow> None
           | Some a \<Rightarrow> map_option snd (Resolve g a)))"
proof (induction as arbitrary: out)
  case Nil
  show ?case by (simp split: option.splits)
next
  case (Cons a as)
  show ?case
  proof (cases "Resolve g a")
    case None
    then show ?thesis by (auto simp: Cons.IH split: option.splits)
  next
    case (Some mr)
    obtain m r where mr: "mr = (m, r)" by (cases mr)
    with Some show ?thesis
      by (auto simp: Cons.IH split: option.splits)
  qed
qed

lemma find_at_most_one:
  assumes "set xs = set ys"
    and "\<forall>a\<in>set xs. \<forall>b\<in>set xs. P a \<and> P b \<longrightarrow> a = b"
  shows "find P xs = find P ys"
proof (cases "find P xs")
  case None
  then have "\<not> (\<exists>x\<in>set ys. P x)" using assms(1) by (auto simp: find_None_iff)
  then have "find P ys = None" by (simp add: find_None_iff)
  with None show ?thesis by simp
next
  case (Some a)
  then have a: "a \<in> set xs" "P a"
    by (auto simp: find_Some_iff in_set_conv_nth)
  then have "find P ys \<noteq> None" using assms(1) by (auto simp: find_None_iff)
  then obtain b where b: "find P ys = Some b" by auto
  then have "b \<in> set ys" "P b" by (auto simp: find_Some_iff in_set_conv_nth)
  with a assms have "a = b" by auto
  with Some b show ?thesis by simp
qed

lemma collect_domains_same_reads:
  "\<forall>d\<in>set domains. cache_Get cache now1 d = cache_Get cache now2 d \<Longrightarrow>
   collect_domains cache now1 m domains = collect_domains cache now2 m domains"
  by (induction domains arbitrary: m) simp_all

lemma fill_same_set:
  assumes "set xs = set ys"
    and "\<forall>a\<in>set xs. \<forall>b\<in>set xs. \<forall>n o1 o2.
           dbASN g (ParseIP g a) = Inr (n, o1) \<and> dbASN g (ParseIP g b) = Inr (n, o2) \<longrightarrow> a = b"
  shows "fill g xs out = fill g ys out"
proof
  fix n
  have "\<forall>a\<in>set xs. \<forall>b\<in>set xs.
          map_option fst (Resolve g a) = Some n \<and> map_option fst (Resolve g b) = Some n \<longrightarrow> a = b"
  proof (intro ballI impI)
    fix a b
    assume ab: "a \<in> set xs" "b \<in> set xs"
      and "map_option fst (Resolve g a) = Some n \<and> map_option fst (Resolve g b) = Some n"
    then obtain o1 o2 where "dbASN g (ParseIP g a) = Inr (n, o1)" "dbASN g (ParseIP g b) = Inr (n, o2)"
      by (auto simp: Resolve_def split: sum.splits)
    with ab assms(2) show "a = b" by blast
  qed
  with assms(1)
  have "find (\<lambda>a. map_option fst (Resolve g a) = Some n) xs =
        find (\<lambda>a. map_option fst (Resolve g a) = Some n) ys"
    by (rule find_at_most_one)
  then show "fill g xs out n = fill g ys out n"
    by (simp only: fill_at)
qed

text \<open>
  Claim C9, as amended. Take two reports for the same list of domains over the same
  cache, at two times between which none of the requested records expires. If the two
  loops reach the same set of addresses before they meet the empty key, and no two
  of these addresses have the same network identifier, the two replies are equal,
  whatever the two orders are: both fail, or both carry the same mapping.
\<close>
theorem repeated_lookup_same_reply:
  assumes "Decoded r = Inr domains"
    and "\<forall>d\<in>set domains. cache_Get cache now1 d = cache_Get cache now2 d"
    and "set (visited (iter1 (collect_domains cache now1 [] domains))) =
         set (visited (iter2 (collect_domains cache now2 [] domains)))"
    and "\<forall>a\<in>set (visited (iter1 (collect_domains cache now1 [] domains))).
         \<forall>b\<in>set (visited (iter1 (collect_domains cache now1 [] domains))).
         \<forall>n o1 o2. dbASN g (ParseIP g a) = Inr (n, o1) \<and> dbASN g (ParseIP g b) = Inr (n, o2)
           \<longrightarrow> a = b"
  shows "lookup g iter1 cache now1 r = lookup g iter2 cache now2 r"
proof -
  let ?m = "collect_domains cache now1 [] domains"
  have m: "collect_domains cache now2 [] domains = ?m"
    using assms(2) by (rule collect_domains_same_reads[symmetric])
  let ?v1 = "visited (iter1 ?m)" and ?v2 = "visited (iter2 ?m)"
  from assms(3) m have same: "set ?v1 = set ?v2" by simp
  have "humanize g (iter1 ?m) Map.empty = humanize g (iter2 ?m) Map.empty"
  proof (cases "\<exists>a\<in>set ?v1. Resolve g a = None")
    case True
    with same have "\<exists>a\<in>set ?v2. Resolve g a = None" by simp
    with True show ?thesis by (simp add: humanize_fails)
  next
    case False
    with same have "\<forall>a\<in>set ?v1. Resolve g a \<noteq> None" "\<forall>a\<in>set ?v2. Resolve g a \<noteq> None"
      by simp_all
    then have "humanize g (iter1 ?m) Map.empty = Json (fill g ?v1 Map.empty)"
      "humanize g (iter2 ?m) Map.empty = Json (fill g ?v2 Map.empty)"
      by (simp_all add: humanize_fill)
    moreover have "fill g ?v1 Map.empty = fill g ?v2 Map.empty"
      using same assms(4) by (rule fill_same_set)
    ultimately show ?thesis by simp
  qed
  with assms(1) m show ?thesis by (simp add: lookup_def)
qed

theorem repeated_lookup_same_reply_witness:
  "Decoded (post [''x.test'']) = Inr [''x.test'']
   \<and> cache_Get [''x.test'' \<mapsto> ('',1.2.3.4,5.6.7.8'', 300)] 10 ''x.test'' =
     cache_Get [''x.test'' \<mapsto> ('',1.2.3.4,5.6.7.8'', 300)] 20 ''x.test''
   \<and> visited (rotated_order
        (collect_domains [''x.test'' \<mapsto> ('',1.2.3.4,5.6.7.8'', 300)] 10 [] [''x.test''])) =
       [''1.2.3.4'', ''5.6.7.8'']
   \<and> visited (reversed_order
        (collect_domains [''x.test'' \<mapsto> ('',1.2.3.4,5.6.7.8'', 300)] 20 [] [''x.test''])) =
       [''5.6.7.8'', ''1.2.3.4'']
   \<and> lookup example_geoip rotated_order [''x.test'' \<mapsto> ('',1.2.3.4,5.6.7.8'', 300)] 10
        (post [''x.test'']) =
     lookup example_geoip reversed_order [''x.test'' \<mapsto> ('',1.2.3.4,5.6.7.8'', 300)] 20
        (post [''x.test''])"
proof -
  let ?c = "[''x.test'' \<mapsto> ('',1.2.3.4,5.6.7.8'', 300::int)]"
  have a: "Decoded (post [''x.test'']) = Inr [''x.test'']"
    by (simp add: post_def)
  have b: "\<forall>d\<in>set [''x.test'']. cache_Get ?c 10 d = cache_Get ?c 20 d"
    by (simp add: cache_Get_def)
  have v1: "visited (rotated_order (collect_domains ?c 10 [] [''x.test''])) = [''1.2.3.4'', ''5.6.7.8'']"
    by (simp add: example_defs visited_def)
  have v2: "visited (reversed_order (collect_domains ?c 20 [] [''x.test''])) = [''5.6.7.8'', ''1.2.3.4'']"
    by (simp add: example_defs visited_def)
  have c: "set (visited (rotated_order (collect_domains ?c 10 [] [''x.test'']))) =
           set (visited (reversed_order (collect_domains ?c 20 [] [''x.test''])))"
    unfolding v1 v2 by auto
  have d: "\<forall>a\<in>set (visited (rotated_order (collect_domains ?c 10 [] [''x.test'']))).
           \<forall>b\<in>set (visited (rotated_order (collect_domains ?c 10 [] [''x.test'']))).
           \<forall>n o1 o2. dbASN example_geoip (ParseIP example_geoip a) = Inr (n, o1) \<and>
                      dbASN example_geoip (ParseIP example_geoip b) = Inr (n, o2) \<longrightarrow> a = b"
    unfolding v1 by (simp add: example_defs)
  show ?thesis
    using a b v1 v2
      repeated_lookup_same_reply [of "post [''x.test'']" "[''x.test'']" ?c 10 20
        rotated_order reversed_order example_geoip, OF a b c d]
    by simp
qed

section \<open>Calls one after the other, and calls that overlap\<close>

text \<open>
  Calls that run one after the other, each call's two steps with nothing in between,
  end in the cache that \<open>serve\<close> gives for the same queries, with every call finished.
\<close>

lemma interleave_one_by_one:
  assumes "name \<noteq> ''''"
  shows "\<forall>a\<in>set (map snd tas). a \<noteq> '''' \<Longrightarrow>
    \<exists>c. serve cache (queries name tas) = Inr c \<and>
      interleave cache (done @ calls name tas) (one_by_one (length done) tas) =
        (c, done @ map (\<lambda>_. Finished) tas)"
proof (induction tas arbitrary: cache "done")
  case Nil
  show ?case by (simp add: queries_def calls_def one_by_one_def)
next
  case (Cons ta tas)
  obtain t a where ta: "ta = (t, a)" by (cases ta)
  let ?key = "butlast name"
  let ?ips = "cache_Get cache t ?key @ '','' @ a"
  let ?c1 = "cache(?key \<mapsto> (?ips, t + 300))"
  from Cons.prems ta have a: "a \<noteq> ''''" and as: "\<forall>a\<in>set (map snd tas). a \<noteq> ''''"
    by simp_all
  have s1: "ServeDNS cache t (UDPAddr a) [name] = Inr ?c1"
    using ServeDNS_append[of a "UDPAddr a" name cache t "[]"] a assms by simp
  from Cons.IH[OF as, of ?c1 "done @ [Finished]"]
  obtain c where c: "serve ?c1 (queries name tas) = Inr c"
    and il: "interleave ?c1 ((done @ [Finished]) @ calls name tas)
               (one_by_one (length (done @ [Finished])) tas) =
             (c, (done @ [Finished]) @ map (\<lambda>_. Finished) tas)"
    by blast
  have "serve cache (queries name (ta # tas)) = Inr c"
    using s1 c ta by (simp add: queries_def)
  moreover have "interleave cache (done @ calls name (ta # tas)) (one_by_one (length done) (ta # tas)) =
      interleave ?c1 ((done @ [Finished]) @ calls name tas)
        (one_by_one (length (done @ [Finished])) tas)"
    using ta by (simp add: calls_def one_by_one_def cache_Set_def nth_append list_update_append)
  ultimately show ?case
    using il by simp
qed

text \<open>
  Claim C3, as amended. Calls for one name that do not overlap, each before the
  deadline set by the one before it, all survive. Run one after the other, they all
  finish, and they leave the cache that handling the queries in turn gives; a read
  before the last deadline splits into what was readable when the first call began,
  followed by the addresses of the calls in their order, so every one of them is
  there. The addresses are not empty and hold no \<^verbatim>\<open>,\<close>.
\<close>

theorem sequential_appends_survive:
  assumes "name \<noteq> ''''"
    and "\<forall>a\<in>set (a1 # map snd rest). a \<noteq> '''' \<and> CHR '','' \<notin> set a"
    and "in_window (t1 + 300) (map fst rest)"
    and "t < last (t1 # map fst rest) + 300"
  shows "\<exists>c. interleave cache (calls name ((t1, a1) # rest)) (one_by_one 0 ((t1, a1) # rest)) =
               (c, map (\<lambda>_. Finished) ((t1, a1) # rest))
           \<and> serve cache (queries name ((t1, a1) # rest)) = Inr c
           \<and> strings_Split (cache_Get c t (butlast name)) (CHR '','') =
               strings_Split (cache_Get cache t1 (butlast name)) (CHR '','') @ a1 # map snd rest
           \<and> set (a1 # map snd rest) \<subseteq> set (strings_Split (cache_Get c t (butlast name)) (CHR '',''))"
proof -
  let ?key = "butlast name"
  let ?v = "cache_Get cache t1 ?key @ concat (map (\<lambda>a. '','' @ a) (a1 # map snd rest))"
  let ?c = "cache(?key \<mapsto> (?v, last (t1 # map fst rest) + 300))"
  have run: "serve cache (queries name ((t1, a1) # rest)) = Inr ?c"
    using assms(1-3) by (intro serve_queries_first) auto
  have "\<forall>a\<in>set (map snd ((t1, a1) # rest)). a \<noteq> ''''"
    using assms(2) by simp
  from interleave_one_by_one[OF assms(1) this, of cache "[]"] run
  have il: "interleave cache (calls name ((t1, a1) # rest)) (one_by_one 0 ((t1, a1) # rest)) =
              (?c, map (\<lambda>_. Finished) ((t1, a1) # rest))"
    by simp
  have "cache_Get ?c t ?key = ?v"
    using assms(4) by (simp add: cache_Get_def)
  moreover have "strings_Split ?v (CHR '','') =
      strings_Split (cache_Get cache t1 ?key) (CHR '','') @ a1 # map snd rest"
    using assms(2) by (intro Split_appended) auto
  ultimately have split: "strings_Split (cache_Get ?c t ?key) (CHR '','') =
      strings_Split (cache_Get cache t1 ?key) (CHR '','') @ a1 # map snd rest"
    by simp
  then have "set (a1 # map snd rest) \<subseteq> set (strings_Split (cache_Get ?c t ?key) (CHR '',''))"
    by auto
  with il run split show ?thesis by blast
qed

theorem sequential_appends_survive_witness:
  "in_window (0 + 300) (map fst [(100, ''5.6.7.8''), (399, ''1.2.9.9'')])
   \<and> 698 < last (0 # map fst [(100::int, ''5.6.7.8''), (399, ''1.2.9.9'')]) + 300
   \<and> (\<exists>c. interleave Map.empty
             [Fetching ''x.test'' ''1.2.3.4'', Fetching ''x.test'' ''5.6.7.8'',
              Fetching ''x.test'' ''1.2.9.9'']
             [(0, 0), (0, 0), (100, 1), (100, 1), (399, 2), (399, 2)] =
             (c, [Finished, Finished, Finished])
          \<and> serve Map.empty
             (queries ''x.test.'' [(0, ''1.2.3.4''), (100, ''5.6.7.8''), (399, ''1.2.9.9'')]) = Inr c
          \<and> strings_Split (cache_Get c 698 ''x.test'') (CHR '','') =
              ['''', ''1.2.3.4'', ''5.6.7.8'', ''1.2.9.9''])"
proof -
  have e: "cache_Get Map.empty 0 ''x.test'' = ''''"
    by (simp add: cache_Get_def)
  have c: "calls ''x.test.'' [(0, ''1.2.3.4''), (100, ''5.6.7.8''), (399, ''1.2.9.9'')] =
             [Fetching ''x.test'' ''1.2.3.4'', Fetching ''x.test'' ''5.6.7.8'',
              Fetching ''x.test'' ''1.2.9.9'']"
    by (simp add: calls_def)
  have s: "one_by_one 0 [(0, ''1.2.3.4''), (100, ''5.6.7.8''), (399, ''1.2.9.9'')] =
             [(0, 0), (0, 0), (100, 1), (100, 1), (399, 2), (399, 2)]"
    by (simp add: one_by_one_def)
  show ?thesis
    using e sequential_appends_survive [of "''x.test.''" "''1.2.3.4''"
        "[(100, ''5.6.7.8''), (399, ''1.2.9.9'')]" 0 698 Map.empty]
    unfolding c s
    by auto
qed

text \<open>
  The claim as written is about calls that overlap. Nothing in the handler keeps
  another call from running between its \<^verbatim>\<open>cache.Get\<close> and its \<^verbatim>\<open>cache.Set\<close>. When
  two calls for the same name both read before either writes, the second write
  replaces the first one, and the first address is gone from every later read.
\<close>

theorem interleaved_append_lost:
  "interleave Map.empty [Fetching ''x.test'' ''1.2.3.4'', Fetching ''x.test'' ''5.6.7.8'']
     [(0, 0), (0, 1), (0, 0), (0, 1)] =
     ([''x.test'' \<mapsto> ('',5.6.7.8'', 300)], [Finished, Finished])
   \<and> strings_Split (cache_Get [''x.test'' \<mapsto> ('',5.6.7.8'', 300)] 1 ''x.test'') (CHR '','') =
       ['''', ''5.6.7.8'']
   \<and> ''1.2.3.4'' \<notin> set (strings_Split
         (cache_Get [''x.test'' \<mapsto> ('',5.6.7.8'', 300)] 1 ''x.test'') (CHR '',''))"
  by (simp add: cache_Get_def cache_Set_def)

end
